theory Spec2Isabelle
  imports Complex_Main "HOL-Library.Multiset" "HOL-Library.List_Lexorder" "HOL-Library.Word"
begin

section \<open>The standard algorithms the module calls\<close>

text \<open>
  \<^verbatim>\<open>std::next_permutation(first, last)\<close> rearranges a range into the next permutation in
  lexicographic order and returns true; when the range is already the last permutation
  (descending), it reverses it into the first one (ascending) and returns false. The
  algorithm has three steps, all from the back of the range: find the longest descending
  tail and the element just before it (the pivot); find the last element of the tail
  that is greater than the pivot; swap the two and reverse the tail. The model reads the
  range from its back, \<open>r = rev v\<close>: \<open>is_sorted_until\<close> gives the length of the longest
  ascending prefix of \<open>r\<close> (the descending tail of \<open>v\<close>), and \<open>upper_bound\<close> the position of
  the first element of that prefix greater than the pivot. That the result is the next
  permutation in lexicographic order, as the C++ standard requires, is proved below
  (\<open>next_permutation_greater\<close>, \<open>next_permutation_least\<close>, \<open>next_permutation_reset\<close>).
\<close>

fun is_sorted_until :: "'a::linorder list \<Rightarrow> nat" where
  "is_sorted_until [] = 0"
| "is_sorted_until [x] = 1"
| "is_sorted_until (x # y # zs) = (if y < x then 1 else Suc (is_sorted_until (y # zs)))"

definition upper_bound :: "'a::linorder list \<Rightarrow> 'a \<Rightarrow> nat" where
  "upper_bound xs p = length (takeWhile (\<lambda>x. \<not> p < x) xs)"

definition next_permutation :: "'a::linorder list \<Rightarrow> bool \<times> 'a list" where
  "next_permutation v =
     (let r = rev v; k = is_sorted_until r in
      if k = length r then (False, r)
      else
        let p = r ! k; pre = take k r; j = upper_bound pre p
        in (True, rev (drop (Suc k) r) @ (pre ! j) # pre[j := p]))"

section \<open>The function \<open>permutations\<close>\<close>

text \<open>
  \<^verbatim>\<open>
  Rcpp::NumericMatrix permutations(int n)
  {
    std::vector<int> v;
    std::vector<std::vector<int>> data;
    for (int i = 1; i <= n; i++) {
      v.push_back(i);
      do {
        if (i == n)
          data.push_back(v);
          Rcpp::checkUserInterrupt();
      }
      while(std::next_permutation(v.begin(), v.end()));
    }
    Rcpp::NumericMatrix output(data.size(), data[0].size());
    for (auto i = 0; i < data.size(); i++) {
      for (auto j = 0; j < data[0].size(); j++) {
        output(i, j) = data[i][j];
      }
    }
    return output;
  }
  \<close>
  The state of the loops is passed explicitly: the working sequence \<open>v\<close>, the recorded
  rows \<open>data\<close>, and \<open>checks\<close>, the number of calls of \<^verbatim>\<open>Rcpp::checkUserInterrupt()\<close> made
  so far. That call stands after the \<^verbatim>\<open>if\<close>, not inside it (the \<^verbatim>\<open>if\<close> has no braces), so
  it runs in every iteration of the do-while.

  The environment of a call has two parts. \<open>intr k\<close> holds when the call number \<open>k\<close> (from
  0) of \<^verbatim>\<open>checkUserInterrupt\<close> finds an interrupt pending: the call throws, and
  \<open>permutations\<close> ends with \<open>Interrupted\<close>. \<open>mem a\<close> holds when the allocation \<open>a\<close> succeeds.
  The function allocates in three places: \<^verbatim>\<open>v.push_back(i)\<close> on a \<open>v\<close> of \<open>k\<close> elements
  (\<open>PushV k\<close>), \<^verbatim>\<open>data.push_back(v)\<close> on a \<open>data\<close> of \<open>k\<close> rows (\<open>PushData k\<close>), and the matrix of
  \<open>r\<close> rows and \<open>c\<close> columns (\<open>Matrix r c\<close>). A \<^verbatim>\<open>push_back\<close> that cannot allocate throws
  \<^verbatim>\<open>std::bad_alloc\<close> (\<open>BadAlloc\<close>); a matrix the host cannot allocate, or one of negative
  extent, is an error of the host (\<open>HostError\<close>).

  Two kinds of undefined behaviour are results of the model: an access outside a
  container (\<^verbatim>\<open>data[0]\<close> of an empty vector, \<^verbatim>\<open>data[i][j]\<close> past the end of a row, a cell
  outside the matrix) is \<open>OutOfBounds\<close>, and the increment of an \<^verbatim>\<open>int\<close> counter of the copy
  loops beyond \<open>2\<^sup>3\<^sup>1 - 1\<close> is \<open>SignedOverflow\<close>.
\<close>

datatype error = Interrupted | BadAlloc | HostError | OutOfBounds | SignedOverflow

datatype allocation = PushV nat | PushData nat | Matrix int int

function do_while ::
  "(nat \<Rightarrow> bool) \<Rightarrow> (allocation \<Rightarrow> bool) \<Rightarrow> int \<Rightarrow> int \<Rightarrow> int list \<Rightarrow> int list list \<Rightarrow> nat \<Rightarrow>
   error + (int list \<times> int list list \<times> nat)" where
  "do_while intr mem i n v data checks =
     (if i = n \<and> \<not> mem (PushData (length data)) then Inl BadAlloc
      else
        let data' = (if i = n then data @ [v] else data) in
        if intr checks then Inl Interrupted
        else
          case next_permutation v of
            (more, v') \<Rightarrow>
              if more then do_while intr mem i n v' data' (Suc checks)
              else Inr (v', data', Suc checks))"
  by pat_completeness auto

function for_loop ::
  "(nat \<Rightarrow> bool) \<Rightarrow> (allocation \<Rightarrow> bool) \<Rightarrow> int \<Rightarrow> int \<Rightarrow> int list \<Rightarrow> int list list \<Rightarrow> nat \<Rightarrow>
   error + (int list \<times> int list list \<times> nat)" where
  "for_loop intr mem i n v data checks =
     (if i \<le> n then
        if \<not> mem (PushV (length v)) then Inl BadAlloc
        else
          case do_while intr mem i n (v @ [i]) data checks of
            Inl e \<Rightarrow> Inl e
          | Inr (v', data', checks') \<Rightarrow> for_loop intr mem (i + 1) n v' data' checks'
      else Inr (v, data, checks))"
  by pat_completeness auto
termination
  by (relation "measure (\<lambda>(intr, mem, i, n, v, data, checks). nat (n + 1 - i))") auto

text \<open>
  Reading \<^verbatim>\<open>xs[i]\<close>, and writing the cell \<^verbatim>\<open>output(i, j)\<close> of a matrix. The matrix is the
  list of its rows. Its cells are doubles; the values stored here are the \<^verbatim>\<open>int\<close>s of the
  rows, which a double holds exactly, and the model keeps them as integers.

  The constructor called is \<^verbatim>\<open>Rcpp::NumericMatrix(const int& nrows, const int& ncols)\<close>: the
  two sizes, of type \<^verbatim>\<open>size_t\<close>, are converted to \<^verbatim>\<open>int\<close>. \<open>to_int\<close> is that conversion: the
  low 32 bits, read as a signed number. The matrix allocated has \<open>nrows\<close> rows of \<open>ncols\<close>
  cells, all zero.
\<close>

type_synonym matrix = "int list list"

definition elem :: "'a list \<Rightarrow> nat \<Rightarrow> error + 'a" where
  "elem xs i = (if i < length xs then Inr (xs ! i) else Inl OutOfBounds)"

definition to_int :: "nat \<Rightarrow> int" where
  "to_int k = (let r = int k mod 2 ^ 32 in if r < 2 ^ 31 then r else r - 2 ^ 32)"

definition NumericMatrix :: "(allocation \<Rightarrow> bool) \<Rightarrow> int \<Rightarrow> int \<Rightarrow> error + matrix" where
  "NumericMatrix mem nrows ncols =
     (if nrows < 0 \<or> ncols < 0 \<or> \<not> mem (Matrix nrows ncols) then Inl HostError
      else Inr (replicate (nat nrows) (replicate (nat ncols) 0)))"

definition assign :: "matrix \<Rightarrow> nat \<Rightarrow> nat \<Rightarrow> int \<Rightarrow> error + matrix" where
  "assign output i j x =
     (if i < length output \<and> j < length (output ! i)
      then Inr (output[i := (output ! i)[j := x]])
      else Inl OutOfBounds)"

text \<open>
  The copy loops. Their counters, declared \<^verbatim>\<open>auto i = 0\<close> and \<^verbatim>\<open>auto j = 0\<close>, are \<^verbatim>\<open>int\<close>s; in
  the comparison with a size they are converted to \<^verbatim>\<open>size_t\<close>, which keeps the value of a
  counter that is not negative. The increment of a counter that holds \<open>2\<^sup>3\<^sup>1 - 1\<close>
  overflows.
\<close>

function copy_row :: "int list list \<Rightarrow> matrix \<Rightarrow> nat \<Rightarrow> nat \<Rightarrow> error + matrix" where
  "copy_row data output i j =
     (case elem data 0 of
        Inl e \<Rightarrow> Inl e
      | Inr row0 \<Rightarrow>
          if j < length row0 then
            case elem data i of
              Inl e \<Rightarrow> Inl e
            | Inr row \<Rightarrow>
                (case elem row j of
                   Inl e \<Rightarrow> Inl e
                 | Inr x \<Rightarrow>
                     (case assign output i j x of
                        Inl e \<Rightarrow> Inl e
                      | Inr output' \<Rightarrow>
                          if int j = 2147483647 then Inl SignedOverflow
                          else copy_row data output' i (j + 1)))
          else Inr output)"
  by pat_completeness auto
termination
  by (relation "measure (\<lambda>(data, output, i, j). length (data ! 0) - j)")
     (auto simp: elem_def split: if_splits)

function copy_rows :: "int list list \<Rightarrow> matrix \<Rightarrow> nat \<Rightarrow> error + matrix" where
  "copy_rows data output i =
     (if i < length data then
        case copy_row data output i 0 of
          Inl e \<Rightarrow> Inl e
        | Inr output' \<Rightarrow>
            if int i = 2147483647 then Inl SignedOverflow
            else copy_rows data output' (i + 1)
      else Inr output)"
  by pat_completeness auto
termination
  by (relation "measure (\<lambda>(data, output, i). length data - i)") auto

definition permutations ::
  "(nat \<Rightarrow> bool) \<Rightarrow> (allocation \<Rightarrow> bool) \<Rightarrow> int \<Rightarrow> error + matrix" where
  "permutations intr mem n =
     (case for_loop intr mem 1 n [] [] 0 of
        Inl e \<Rightarrow> Inl e
      | Inr (v, data, checks) \<Rightarrow>
          (case elem data 0 of
             Inl e \<Rightarrow> Inl e
           | Inr row0 \<Rightarrow>
               (case NumericMatrix mem (to_int (length data)) (to_int (length row0)) of
                  Inl e \<Rightarrow> Inl e
                | Inr output \<Rightarrow> copy_rows data output 0)))"

text \<open>
  A run in which no call of \<^verbatim>\<open>checkUserInterrupt\<close> finds an interrupt pending, and one in
  which every allocation succeeds.
\<close>

definition no_interrupt :: "nat \<Rightarrow> bool" where
  "no_interrupt k = False"

definition enough_memory :: "allocation \<Rightarrow> bool" where
  "enough_memory a = True"

section \<open>The function \<open>maxC\<close>\<close>

text \<open>
  \<^verbatim>\<open>
  float maxC(std::vector<float> v) {
    return *std::max_element(v.begin(), v.end());
  }
  \<close>
  A \<^verbatim>\<open>float\<close> is an IEEE 754 binary32 value, modelled by its 32 bits: the sign (bit 31), the
  exponent (bits 30 to 23) and the fraction (bits 22 to 0). A value whose exponent is all
  ones and whose fraction is not zero is a NaN: its low 31 bits, read as a number, are
  above \<open>0x7F800000\<close>, the bits of the infinity. \<open>float_less\<close> is the comparison \<^verbatim>\<open><\<close> of two
  floats and \<open>float_le\<close> the comparison \<^verbatim>\<open><=\<close>: false when either is a NaN; otherwise the
  sign and the magnitude decide (the magnitudes of two floats compare as their low 31
  bits do, and the two zeros are equal).
\<close>

type_synonym float = "32 word"

definition isnan :: "float \<Rightarrow> bool" where
  "isnan x = (0x7F800000 < take_bit 31 x)"

definition float_key :: "float \<Rightarrow> int" where
  "float_key x = (if bit x 31 then - uint (take_bit 31 x) else uint (take_bit 31 x))"

definition float_less :: "float \<Rightarrow> float \<Rightarrow> bool" where
  "float_less a b = (\<not> isnan a \<and> \<not> isnan b \<and> float_key a < float_key b)"

definition float_le :: "float \<Rightarrow> float \<Rightarrow> bool" where
  "float_le a b = (\<not> isnan a \<and> \<not> isnan b \<and> float_key a \<le> float_key b)"

text \<open>
  The number a float stands for: the fraction scaled by the exponent, with the hidden
  leading bit unless the exponent is zero. (An infinity is given the value \<open>2\<^sup>1\<^sup>2\<^sup>8\<close>, above
  every finite float.) That \<open>isnan\<close> and the comparisons are those of IEEE 754 on these
  numbers is proved below (\<open>isnan_iff\<close>, \<open>float_less_iff\<close>, \<open>float_le_iff\<close>).
\<close>

definition exponent :: "float \<Rightarrow> nat" where
  "exponent x = unat (take_bit 8 (drop_bit 23 x))"

definition fraction :: "float \<Rightarrow> nat" where
  "fraction x = unat (take_bit 23 x)"

definition float_val :: "float \<Rightarrow> rat" where
  "float_val x =
     (let m = (if exponent x = 0 then of_nat (fraction x) / 2 ^ 149
               else of_nat (2 ^ 23 + fraction x) * 2 ^ exponent x / 2 ^ 150)
      in if bit x 31 then - m else m)"

text \<open>
  \<^verbatim>\<open>std::max_element(first, last)\<close> returns \<^verbatim>\<open>last\<close> when the range is empty; otherwise it
  walks the range once and keeps the position of the first element that no later element
  has exceeded: \<^verbatim>\<open>if (*largest < *first) largest = first\<close>. Positions are indices into the
  sequence, and \<^verbatim>\<open>last\<close> is its length. \<open>maxC\<close> dereferences the position returned.
\<close>

function max_loop :: "float list \<Rightarrow> nat \<Rightarrow> nat \<Rightarrow> nat" where
  "max_loop v largest first =
     (if first < length v
      then max_loop v (if float_less (v ! largest) (v ! first) then first else largest) (first + 1)
      else largest)"
  by pat_completeness auto

termination
  by (relation "measure (\<lambda>(v, largest, first). length v - first)") auto

definition max_element :: "float list \<Rightarrow> nat" where
  "max_element v = (if v = [] then length v else max_loop v 0 1)"

definition maxC :: "float list \<Rightarrow> error + float" where
  "maxC v = elem v (max_element v)"

section \<open>The direct enumeration of the specification\<close>



section \<open>Definitions for the proofs\<close>

text \<open>
  The sequences the do-while loop visits from \<open>v\<close> on: \<open>v\<close> itself, then the next
  permutation as long as \<^verbatim>\<open>std::next_permutation\<close> returns true.
\<close>

function successors :: "'a::linorder list \<Rightarrow> 'a list list" where
  "successors v =
     v # (case next_permutation v of (more, v') \<Rightarrow> if more then successors v' else [])"
  by pat_completeness auto

text \<open>
  The number of calls of \<^verbatim>\<open>checkUserInterrupt\<close> in the iterations \<open>i, \<dots>, n\<close> of the outer
  loop: \<open>k!\<close> in iteration \<open>k\<close>.
\<close>

definition iterations :: "int \<Rightarrow> int \<Rightarrow> nat" where
  "iterations i n = (\<Sum>k = nat i..nat n. fact k)"

text \<open>
  The magnitude of a float, scaled by \<open>2\<^sup>1\<^sup>5\<^sup>0\<close>, as a natural number: it grows with the
  exponent and the fraction, read together as one number.
\<close>

definition float_scaled :: "nat \<Rightarrow> nat \<Rightarrow> nat" where
  "float_scaled e f = (if e = 0 then 2 * f else (2 ^ 23 + f) * 2 ^ e)"

section \<open>Lexicographic order and the next permutation\<close>

subsection \<open>Lexicographic order on sequences\<close>

lemma append_less_append: "xs @ ys < xs @ zs \<longleftrightarrow> ys < (zs :: 'a::linorder list)"
  by (induction xs) simp_all

lemma append_less_append_same_length:
  "length a = length b \<Longrightarrow> a @ x < b @ y \<longleftrightarrow> a < b \<or> a = b \<and> x < (y :: 'a::linorder list)"
  by (induction a b rule: list_induct2) auto

lemma sorted_least_permutation:
  "sorted s \<Longrightarrow> mset t = mset s \<Longrightarrow> s \<le> (t :: 'a::linorder list)"
proof (induction s arbitrary: t)
  case Nil
  then show ?case by simp
next
  case (Cons x s)
  from Cons.prems(2) obtain y t' where t: "t = y # t'"
    by (cases t) auto
  have "y \<in> set (x # s)"
    using Cons.prems(2) t by (metis list.set_intros(1) mset_eq_setD)
  with Cons.prems(1) have xy: "x \<le> y" by auto
  show ?case
  proof (cases "x = y")
    case True
    with Cons.prems t have "mset t' = mset s" "sorted s" by auto
    then have "s \<le> t'" using Cons.IH by blast
    with True t show ?thesis by simp
  next
    case False
    with xy t show ?thesis by simp
  qed
qed

lemma descending_greatest_permutation:
  "sorted (rev s) \<Longrightarrow> mset t = mset s \<Longrightarrow> t \<le> (s :: 'a::linorder list)"
proof (induction s arbitrary: t)
  case Nil
  then show ?case by simp
next
  case (Cons x s)
  from Cons.prems(2) obtain y t' where t: "t = y # t'"
    by (cases t) auto
  have "y \<in> set (x # s)"
    using Cons.prems(2) t by (metis list.set_intros(1) mset_eq_setD)
  with Cons.prems(1) have xy: "y \<le> x" by (auto simp: sorted_append)
  show ?case
  proof (cases "x = y")
    case True
    with Cons.prems t have "mset t' = mset s" "sorted (rev s)" by (auto simp: sorted_append)
    then have "t' \<le> s" using Cons.IH by blast
    with True t show ?thesis by simp
  next
    case False
    with xy t show ?thesis by simp
  qed
qed

text \<open>
  The order \<open><\<close> on sequences is the lexicographic one: of two sequences of the same length,
  the less is the one with the less element at the first position where they differ.
\<close>

lemma less_iff_first_difference:
  "length xs = length ys \<Longrightarrow>
   xs < ys \<longleftrightarrow> (\<exists>k<length xs. take k xs = take k ys \<and> xs ! k < (ys ! k :: 'a::linorder))"
proof (induction xs ys rule: list_induct2)
  case Nil
  then show ?case by simp
next
  case (Cons x xs y ys)
  have "(\<exists>k<length (x # xs). take k (x # xs) = take k (y # ys) \<and> (x # xs) ! k < (y # ys) ! k) \<longleftrightarrow>
      x < y \<or> x = y \<and> (\<exists>k<length xs. take k xs = take k ys \<and> xs ! k < ys ! k)"
    by (auto simp: less_Suc_eq_0_disj)
  with Cons show ?case by simp
qed

subsection \<open>What \<open>next_permutation\<close> computes\<close>

lemma is_sorted_until_le: "is_sorted_until r \<le> length r"
  by (induction r rule: is_sorted_until.induct) auto

lemma is_sorted_until_all: "is_sorted_until r = length r \<longleftrightarrow> sorted r"
proof (induction r rule: is_sorted_until.induct)
  case (3 x y zs)
  have "is_sorted_until (y # zs) \<le> length (y # zs)"
    by (rule is_sorted_until_le)
  with 3 show ?case by auto
qed simp_all

lemma is_sorted_until_split:
  "is_sorted_until r < length r \<Longrightarrow>
   \<exists>pre p tl. r = pre @ p # tl \<and> length pre = is_sorted_until r \<and> sorted pre \<and>
     pre \<noteq> [] \<and> p < last pre"
proof (induction r rule: is_sorted_until.induct)
  case (3 x y zs)
  show ?case
  proof (cases "y < x")
    case True
    then have "x # y # zs = [x] @ y # zs \<and> length [x] = is_sorted_until (x # y # zs) \<and>
      sorted [x] \<and> [x] \<noteq> [] \<and> y < last [x]" by simp
    then show ?thesis by blast
  next
    case False
    with 3 obtain pre p tl where d: "y # zs = pre @ p # tl"
      "length pre = is_sorted_until (y # zs)" "sorted pre" "pre \<noteq> []" "p < last pre"
      by auto
    from d(1,4) have "hd pre = y" by (cases pre) auto
    with d(3,4) False have "sorted (x # pre)" by (cases pre) auto
    moreover from d(2) False have "length (x # pre) = is_sorted_until (x # y # zs)"
      by simp
    moreover from d(1) have "x # y # zs = (x # pre) @ p # tl" by simp
    moreover from d(4,5) have "p < last (x # pre)" by simp
    ultimately show ?thesis by blast
  qed
qed simp_all

lemma upper_bound_split:
  assumes "sorted pre" "pre \<noteq> []" "p < last pre"
  shows "\<exists>A q B. pre = A @ q # B \<and> length A = upper_bound pre p \<and> p < q \<and>
     (\<forall>a\<in>set A. a \<le> p)"
proof -
  let ?A = "takeWhile (\<lambda>x. \<not> p < x) pre"
  let ?D = "dropWhile (\<lambda>x. \<not> p < x) pre"
  have "last pre \<in> set pre" using assms(2) by simp
  with assms(3) have "?D \<noteq> []" by auto
  then obtain q B where D: "?D = q # B" by (cases ?D) auto
  then have "p < q" using hd_dropWhile [of "\<lambda>x. \<not> p < x" pre] by auto
  moreover have "pre = ?A @ q # B" using D by (metis takeWhile_dropWhile_id)
  moreover have "\<forall>a\<in>set ?A. a \<le> p" by (auto dest: set_takeWhileD)
  ultimately show ?thesis unfolding upper_bound_def by blast
qed

lemma next_permutation_examples:
  "next_permutation [1, 2, 3 :: int] = (True, [1, 3, 2])"
  "next_permutation [1, 3, 2 :: int] = (True, [2, 1, 3])"
  "next_permutation [3, 2, 1 :: int] = (False, [1, 2, 3])"
  "next_permutation [1, 2, 2 :: int] = (True, [2, 1, 2])"
  "next_permutation [2, 3, 1, 4, 4, 3, 0 :: int] = (True, [2, 3, 3, 0, 1, 4, 4])"
  "next_permutation ([] :: int list) = (False, [])"
  by code_simp+

lemma next_permutation_False:
  "next_permutation v = (False, v') \<longleftrightarrow> sorted (rev v) \<and> v' = rev v"
  by (auto simp: next_permutation_def Let_def is_sorted_until_all [symmetric])

lemma next_permutation_True:
  assumes "next_permutation v = (True, v')"
  shows "\<exists>F p S q S'. v = F @ p # S \<and> v' = F @ q # S' \<and> sorted (rev S) \<and> sorted S' \<and>
     p < q \<and> mset (q # S') = mset (p # S) \<and> (\<forall>c\<in>set S. p < c \<longrightarrow> q \<le> c)"
proof -
  define r where "r = rev v"
  define k where "k = is_sorted_until r"
  from assms have k: "k < length r"
    using is_sorted_until_le [of r]
    by (auto simp: next_permutation_def Let_def r_def k_def split: if_splits)
  then obtain pre p tl where r: "r = pre @ p # tl" and len: "length pre = k"
    and pre: "sorted pre" "pre \<noteq> []" "p < last pre"
    using is_sorted_until_split [of r] unfolding k_def by blast
  from pre obtain A q B where A: "pre = A @ q # B" "length A = upper_bound pre p"
    "p < q" "\<forall>a\<in>set A. a \<le> p"
    using upper_bound_split [of pre p] by blast
  from r len have parts: "take k r = pre" "r ! k = p" "drop (Suc k) r = tl"
    by (auto simp: nth_append)
  from A(1,2) have upd: "pre ! upper_bound pre p = q" "pre[upper_bound pre p := p] = A @ p # B"
    by (metis nth_append_length) (metis A(1,2) list_update_length)
  from assms k have v': "v' = rev tl @ q # A @ p # B"
    using parts upd by (simp add: next_permutation_def Let_def r_def [symmetric] k_def [symmetric])
  from r have v: "v = rev tl @ p # rev pre"
    unfolding r_def by (metis rev_append rev.simps(2) rev_rev_ident append_Cons append_Nil append_assoc)
  from pre(1) A have sorted': "sorted (A @ p # B)"
    by (auto simp: sorted_append)
  from pre(1) A have least: "\<forall>c\<in>set (rev pre). p < c \<longrightarrow> q \<le> c"
    by (auto simp: sorted_append)
  from A(1) have "mset (q # A @ p # B) = mset (p # rev pre)" by simp
  with v v' pre(1) sorted' A(3) least show ?thesis
    by (metis rev_rev_ident)
qed

lemma next_permutation_mset: "next_permutation v = (b, v') \<Longrightarrow> mset v' = mset v"
proof (cases b)
  case True
  assume "next_permutation v = (b, v')"
  with True have "next_permutation v = (True, v')" by simp
  then obtain F p S q S' where "v = F @ p # S" "v' = F @ q # S'"
    "mset (q # S') = mset (p # S)"
    using next_permutation_True [of v v'] by blast
  then show ?thesis by simp
next
  case False
  assume "next_permutation v = (b, v')"
  with False show ?thesis by (simp add: next_permutation_False)
qed

lemma next_permutation_greater: "next_permutation v = (True, v') \<Longrightarrow> v < v'"
proof -
  assume "next_permutation v = (True, v')"
  then obtain F p S q S' where "v = F @ p # S" "v' = F @ q # S'" "p < q"
    using next_permutation_True [of v v'] by blast
  then show ?thesis by (simp add: append_less_append)
qed

lemma next_permutation_least:
  assumes "next_permutation v = (True, v')" and w: "mset w = mset v" "v < w"
  shows "v' \<le> w"
proof -
  from assms(1) obtain F p S q S' where d: "v = F @ p # S" "v' = F @ q # S'"
    "sorted (rev S)" "sorted S'" "p < q" "mset (q # S') = mset (p # S)"
    "\<forall>c\<in>set S. p < c \<longrightarrow> q \<le> c"
    using next_permutation_True [of v v'] by blast
  define G where "G = take (length F) w"
  define R where "R = drop (length F) w"
  have len: "length w = length v" using w(1) by (rule mset_eq_length)
  with d(1) have lenG: "length G = length F" and "R \<noteq> []"
    by (auto simp: G_def R_def)
  then obtain c T where R: "R = c # T" by (cases R) auto
  have "w = G @ R" by (simp add: G_def R_def)
  with R have wGR: "w = G @ c # T" by simp
  from w(2) d(1) wGR lenG have cases: "F < G \<or> F = G \<and> p # S < c # T"
    by (simp add: append_less_append_same_length)
  show ?thesis
  proof (cases "F < G")
    case True
    with lenG d(2) wGR show ?thesis
      by (simp add: append_less_append_same_length less_imp_le)
  next
    case False
    with cases have FG: "F = G" and less: "p # S < c # T" by auto
    from w(1) d(1) wGR FG have ms: "mset (c # T) = mset (p # S)" by simp
    from less have "p < c \<or> p = c \<and> S < T" by simp
    then show ?thesis
    proof
      assume pc: "p < c"
      have "c \<in> set (p # S)" using ms by (metis list.set_intros(1) mset_eq_setD)
      with pc have "c \<in> set S" by auto
      with pc d(7) have qc: "q \<le> c" by blast
      show ?thesis
      proof (cases "q = c")
        case True
        with ms d(6) have "mset (c # T) = mset (c # S')" by simp
        then have "mset T = mset S'" by simp
        with d(4) have "S' \<le> T" by (rule sorted_least_permutation)
        with True have "q # S' \<le> c # T" by simp
        then have "F @ q # S' \<le> F @ c # T"
          by (auto simp: le_less append_less_append)
        with d(2) wGR FG show ?thesis by simp
      next
        case False
        with qc have "q # S' < c # T" by simp
        then have "F @ q # S' < F @ c # T" by (simp add: append_less_append)
        with d(2) wGR FG show ?thesis by simp
      qed
    next
      assume "p = c \<and> S < T"
      then have "p = c" "S < T" by auto
      with ms have "mset T = mset S" by simp
      with d(3) have "T \<le> S" by (rule descending_greatest_permutation)
      with \<open>S < T\<close> show ?thesis by simp
    qed
  qed
qed

lemma next_permutation_reset:
  "next_permutation v = (False, v') \<Longrightarrow> v' = sort v"
  by (simp add: next_permutation_False) (metis mset_rev properties_for_sort)

lemma next_permutation_measure:
  assumes "next_permutation v = (True, v')"
  shows "card {w. mset w = mset v' \<and> v' < w} < card {w. mset w = mset v \<and> v < w}"
proof (rule psubset_card_mono)
  have "{w. mset w = mset v \<and> v < w} \<subseteq> {w. mset w = mset v}" by blast
  then show "finite {w. mset w = mset v \<and> v < w}"
    using mset_eq_finite [of v] by (rule finite_subset)
  have m: "mset v' = mset v" using assms by (rule next_permutation_mset)
  have l: "v < v'" using assms by (rule next_permutation_greater)
  from m l have "v' \<in> {w. mset w = mset v \<and> v < w}" by simp
  moreover have "v' \<notin> {w. mset w = mset v' \<and> v' < w}" by simp
  moreover from m l have "{w. mset w = mset v' \<and> v' < w} \<subseteq> {w. mset w = mset v \<and> v < w}"
    by auto
  ultimately show "{w. mset w = mset v' \<and> v' < w} \<subset> {w. mset w = mset v \<and> v < w}"
    by blast
qed

section \<open>Termination of the enumeration\<close>

text \<open>
  Every step of the do-while loop moves to a greater permutation of the same elements, and
  there are finitely many of them: the number of greater permutations decreases.
\<close>

termination do_while
  by (relation "measure (\<lambda>(intr, mem, i, n, v, data, checks). card {w. mset w = mset v \<and> v < w})")
     (auto simp: next_permutation_measure)


termination successors
  by (relation "measure (\<lambda>v. card {w. mset w = mset v \<and> v < w})")
     (auto simp: next_permutation_measure)

declare successors.simps [simp del]
declare do_while.simps [simp del]
declare for_loop.simps [simp del]
declare copy_row.simps [simp del]
declare copy_rows.simps [simp del]
declare max_loop.simps [simp del]

section \<open>What the loops compute\<close>

lemma successors_more:
  "next_permutation v = (True, v') \<Longrightarrow> successors v = v # successors v'"
  by (subst successors.simps) simp

lemma successors_last:
  "next_permutation v = (False, v') \<Longrightarrow> successors v = [v]"
  by (subst successors.simps) simp

lemma successors_induct [consumes 0, case_names more last]:
  assumes "\<And>v v'. next_permutation v = (True, v') \<Longrightarrow> P v' \<Longrightarrow> P v"
    and "\<And>v v'. next_permutation v = (False, v') \<Longrightarrow> P v"
  shows "P v"
proof (induction v rule: successors.induct)
  case (1 v)
  obtain more v' where np: "next_permutation v = (more, v')"
    by (cases "next_permutation v") auto
  show ?case
  proof (cases more)
    case True
    with np 1 [of more v'] assms(1) [of v v'] show ?thesis by simp
  next
    case False
    with np assms(2) [of v v'] show ?thesis by simp
  qed
qed

lemma successors_set: "set (successors v) = {w. mset w = mset v \<and> v \<le> w}"
proof (induction v rule: successors_induct)
  case (more v v')
  have m: "mset v' = mset v" using more(1) by (rule next_permutation_mset)
  have l: "v < v'" using more(1) by (rule next_permutation_greater)
  have "{w. mset w = mset v \<and> v \<le> w} = insert v {w. mset w = mset v' \<and> v' \<le> w}"
  proof (intro set_eqI iffI)
    fix w assume "w \<in> {w. mset w = mset v \<and> v \<le> w}"
    then have w: "mset w = mset v" "v \<le> w" by auto
    show "w \<in> insert v {w. mset w = mset v' \<and> v' \<le> w}"
    proof (cases "w = v")
      case False
      with w have "v < w" by simp
      with more(1) w(1) have "v' \<le> w" by (rule next_permutation_least)
      with w(1) m show ?thesis by simp
    qed simp
  next
    fix w assume "w \<in> insert v {w. mset w = mset v' \<and> v' \<le> w}"
    with m l show "w \<in> {w. mset w = mset v \<and> v \<le> w}" by auto
  qed
  with more show ?case by (simp add: successors_more)
next
  case (last v v')
  then have "sorted (rev v)" by (simp add: next_permutation_False)
  then have "\<And>w. mset w = mset v \<Longrightarrow> w \<le> v"
    by (rule descending_greatest_permutation)
  then have "{w. mset w = mset v \<and> v \<le> w} = {v}" by (auto intro: antisym)
  with last show ?case by (simp add: successors_last)
qed

lemma successors_strictly_sorted: "sorted_wrt (<) (successors v)"
proof (induction v rule: successors_induct)
  case (more v v')
  have "v < v'" using more(1) by (rule next_permutation_greater)
  then have "\<forall>w\<in>set (successors v'). v < w" by (auto simp: successors_set)
  with more show ?case by (simp add: successors_more)
next
  case (last v v')
  then show ?case by (simp add: successors_last)
qed

lemma successors_hd: "hd (successors v) = v"
  by (subst successors.simps) simp

lemma successors_nonempty: "successors v \<noteq> []"
  by (subst successors.simps) simp

lemma successors_end: "last (successors v) = rev (sort v)"
proof (induction v rule: successors_induct)
  case (more v v')
  have "mset v' = mset v" using more(1) by (rule next_permutation_mset)
  then have "sort v' = sort v" by (metis properties_for_sort sorted_sort mset_sort)
  with more show ?case by (simp add: successors_more successors_nonempty)
next
  case (last v v')
  then have "sort v = rev v" by (metis next_permutation_reset next_permutation_False)
  with last show ?case by (simp add: successors_last)
qed

lemma successors_length: "length (successors v) = card {w. mset w = mset v \<and> v \<le> w}"
proof -
  have "distinct (successors v)"
    using successors_strictly_sorted [of v] by (simp add: strict_sorted_iff)
  then have "length (successors v) = card (set (successors v))"
    by (simp add: distinct_card)
  then show ?thesis by (simp add: successors_set)
qed

lemma permutations_of_distinct:
  assumes "distinct v"
  shows "{w. mset w = mset v} = {xs. length xs = length v \<and> distinct xs \<and> set xs \<subseteq> set v}"
proof (intro set_eqI iffI)
  fix w assume "w \<in> {w. mset w = mset v}"
  then have "mset w = mset v" by simp
  then have "length w = length v" "distinct w \<longleftrightarrow> distinct v" "set w = set v"
    by (rule mset_eq_length, rule mset_eq_imp_distinct_iff, rule mset_eq_setD)
  with assms show "w \<in> {xs. length xs = length v \<and> distinct xs \<and> set xs \<subseteq> set v}" by simp
next
  fix w assume "w \<in> {xs. length xs = length v \<and> distinct xs \<and> set xs \<subseteq> set v}"
  then have w: "length w = length v" "distinct w" "set w \<subseteq> set v" by auto
  then have "card (set w) = card (set v)" using assms by (simp add: distinct_card)
  with w(3) have "set w = set v" by (simp add: card_subset_eq)
  with w(2) assms have "mset w = mset v" by (simp add: set_eq_iff_mset_eq_distinct)
  then show "w \<in> {w. mset w = mset v}" by simp
qed

lemma card_permutations_of_distinct:
  assumes "distinct v"
  shows "card {w. mset w = mset v} = fact (length v)"
proof -
  have "card {xs. length xs = length v \<and> distinct xs \<and> set xs \<subseteq> set v} =
      \<Prod>{card (set v) - length v + 1..card (set v)}"
    using assms by (intro card_lists_distinct_length_eq) (simp_all add: distinct_card)
  also have "\<dots> = \<Prod>{1..length v}" using assms by (simp add: distinct_card)
  also have "\<dots> = fact (length v)" by (simp add: fact_prod)
  finally show ?thesis using assms by (simp add: permutations_of_distinct)
qed

lemma successors_of_sorted_set:
  "sorted v \<Longrightarrow> set (successors v) = {w. mset w = mset v}"
  by (auto simp: successors_set dest: sorted_least_permutation)

lemma successors_of_sorted_length:
  assumes "sorted v" "distinct v"
  shows "length (successors v) = fact (length v)"
proof -
  from assms(1) have "{w. mset w = mset v \<and> v \<le> w} = {w. mset w = mset v}"
    by (auto dest: sorted_least_permutation)
  with assms(2) show ?thesis
    by (simp add: successors_length card_permutations_of_distinct)
qed

lemma upto_snoc: "1 \<le> i \<Longrightarrow> [1..i - 1] @ [i] = [1..i]"
  by (simp add: upto_rec2 [of 1 i])

lemma successors_upto_length: "length (successors [1..i]) = fact (nat i)"
  by (simp add: successors_of_sorted_length)

lemma iterations_done: "n < i \<Longrightarrow> 1 \<le> i \<Longrightarrow> iterations i n = 0"
  by (simp add: iterations_def)

lemma iterations_step:
  assumes "1 \<le> i" "i \<le> n"
  shows "iterations i n = fact (nat i) + iterations (i + 1) n"
proof -
  from assms have "nat i \<le> nat n" "nat (i + 1) = Suc (nat i)" by auto
  then show ?thesis by (simp add: iterations_def sum.atLeast_Suc_atMost)
qed

lemma successors_same_length: "w \<in> set (successors v) \<Longrightarrow> length w = length v"
  by (auto simp: successors_set dest: mset_eq_length)

lemma nth_successors_0: "successors v ! 0 = v"
  by (subst successors.simps) simp

lemma permutation_of_upto:
  "mset w = mset [1..n] \<longleftrightarrow> distinct w \<and> set w = {1..n}"
proof
  assume m: "mset w = mset [1..n]"
  then have "distinct w \<longleftrightarrow> distinct [1..n]" by (rule mset_eq_imp_distinct_iff)
  moreover from m have "set w = set [1..n]" by (rule mset_eq_setD)
  ultimately show "distinct w \<and> set w = {1..n}" by simp
next
  assume "distinct w \<and> set w = {1..n}"
  then show "mset w = mset [1..n]"
    by (simp add: set_eq_iff_mset_eq_distinct [symmetric])
qed

lemma successors_upto_set: "set (successors [1..n]) = {w. distinct w \<and> set w = {1..n}}"
  by (simp add: successors_of_sorted_set permutation_of_upto)

lemma successors_upto_distinct: "distinct (successors v)"
  using successors_strictly_sorted [of v] by (simp add: strict_sorted_iff)

text \<open>
  The counters of the copy loops are \<^verbatim>\<open>int\<close>s, and so are the dimensions of the matrix: they
  hold the number of rows, \<open>n!\<close>, as long as \<open>n \<le> 12\<close>.
\<close>

lemma rows_within_int_range:
  "n \<le> 12 \<Longrightarrow> fact (nat n) < (2 :: nat) ^ 31"
  "13 \<le> n \<Longrightarrow> (2 :: nat) ^ 31 \<le> fact (nat n)"
proof -
  have f12: "fact 12 = (479001600 :: nat)" and f13: "fact 13 = (6227020800 :: nat)"
    by (simp_all add: fact_numeral)
  show "fact (nat n) < (2 :: nat) ^ 31" if "n \<le> 12"
  proof -
    from that have "nat n \<le> 12" by simp
    then have "fact (nat n) \<le> (fact 12 :: nat)" by (rule fact_mono)
    with f12 show ?thesis by simp
  qed
  show "(2 :: nat) ^ 31 \<le> fact (nat n)" if "13 \<le> n"
  proof -
    from that have "13 \<le> nat n" by simp
    then have "(fact 13 :: nat) \<le> fact (nat n)" by (rule fact_mono)
    with f13 show ?thesis by simp
  qed
qed

lemma do_while_good:
  "do_while no_interrupt enough_memory i n v data checks =
     Inr (sort v, (if i = n then data @ successors v else data),
          checks + length (successors v))"
proof (induction v arbitrary: data checks rule: successors_induct)
  case (more v v')
  have "mset v' = mset v" using more(1) by (rule next_permutation_mset)
  then have s: "sort v' = sort v" by (metis properties_for_sort sorted_sort mset_sort)
  show ?case
    by (subst do_while.simps)
      (simp add: more successors_more [OF more(1)] s Let_def no_interrupt_def enough_memory_def)
next
  case (last v v')
  then have s: "v' = sort v" by (rule next_permutation_reset)
  show ?case
    by (subst do_while.simps)
      (simp add: last successors_last [OF last(1)] s Let_def no_interrupt_def enough_memory_def)
qed

lemma for_loop_good:
  assumes "1 \<le> i" "i \<le> n + 1"
  shows "for_loop no_interrupt enough_memory i n [1..i - 1] data checks =
     Inr ([1..n], (if i \<le> n then data @ successors [1..n] else data),
          checks + iterations i n)"
  using assms
proof (induction "nat (n + 1 - i)" arbitrary: i data checks)
  case 0
  then have i: "i = n + 1" by simp
  then have "iterations i n = 0" using "0.prems" by (simp add: iterations_done)
  with i show ?case by (subst for_loop.simps) simp
next
  case (Suc m)
  then have i: "1 \<le> i" "i \<le> n" by auto
  have v: "[1..i - 1] @ [i] = [1..i]" using i(1) by (rule upto_snoc)
  have srt: "sort [1..i] = [1..i]" by (simp add: sorted_sort_id)
  have it: "iterations i n = fact (nat i) + iterations (i + 1) n"
    using i by (rule iterations_step)
  define D where "D = (if i = n then data @ successors [1..i] else data)"
  have D: "(if i + 1 \<le> n then D @ successors [1..n] else D) = data @ successors [1..n]"
  proof (cases "i = n")
    case True
    then show ?thesis by (simp add: D_def)
  next
    case False
    with i show ?thesis by (simp add: D_def)
  qed
  have dw: "do_while no_interrupt enough_memory i n [1..i] data checks =
      Inr ([1..i], D, checks + fact (nat i))"
    unfolding D_def by (simp add: do_while_good srt successors_upto_length)
  have step: "for_loop no_interrupt enough_memory i n [1..i - 1] data checks =
      for_loop no_interrupt enough_memory (i + 1) n [1..i] D (checks + fact (nat i))"
    by (subst for_loop.simps) (simp add: i v dw enough_memory_def)
  from Suc(2) i have m: "m = nat (n + 1 - (i + 1))" by simp
  have "for_loop no_interrupt enough_memory (i + 1) n [1..i + 1 - 1] D (checks + fact (nat i)) =
      Inr ([1..n], (if i + 1 \<le> n then D @ successors [1..n] else D),
           checks + fact (nat i) + iterations (i + 1) n)"
    using m i by (intro Suc(1)) simp_all
  then show ?case using i(2) by (simp add: step D it add.assoc)
qed


lemma for_loop_from_start:
  assumes "1 \<le> n"
  shows "for_loop no_interrupt enough_memory 1 n [] [] 0 =
     Inr ([1..n], successors [1..n], iterations 1 n)"
  using for_loop_good [of 1 n "[]" 0] assms by simp



subsection \<open>The copy loops\<close>

lemma to_int_less: "to_int k < 2 ^ 31"
proof -
  define r where "r = int k mod 2 ^ 32"
  have "r < 2 ^ 32" unfolding r_def by simp
  then have "(if r < 2 ^ 31 then r else r - 2 ^ 32) < 2 ^ 31" by simp
  then show ?thesis unfolding to_int_def Let_def r_def .
qed

lemma to_int_small: "k < 2 ^ 31 \<Longrightarrow> to_int k = int k"
  by (simp add: to_int_def Let_def)

lemma assign_length: "assign out i j x = Inr out' \<Longrightarrow> length out' = length out"
  by (auto simp: assign_def split: if_splits)

lemma copy_row_length: "copy_row data out i j = Inr out' \<Longrightarrow> length out' = length out"
proof (induction data out i j rule: copy_row.induct)
  case (1 data out i j)
  show ?case
  proof (cases "\<exists>row0. elem data 0 = Inr row0 \<and> j < length row0")
    case False
    with "1.prems" show ?thesis
      by (subst (asm) copy_row.simps) (auto split: sum.splits if_splits)
  next
    case True
    then obtain row0 where r0: "elem data 0 = Inr row0" "j < length row0" by blast
    with "1.prems" obtain row x out1 where s: "elem data i = Inr row" "elem row j = Inr x"
      "assign out i j x = Inr out1" "int j \<noteq> 2147483647"
      "copy_row data out1 i (j + 1) = Inr out'"
      by (subst (asm) copy_row.simps) (auto split: sum.splits if_splits)
    from r0 s have "length out' = length out1" by (rule "1.IH")
    with assign_length [OF s(3)] show ?thesis by simp
  qed
qed

lemma copy_rows_length: "copy_rows data out i = Inr out' \<Longrightarrow> length out' = length out"
proof (induction data out i rule: copy_rows.induct)
  case (1 data out i)
  show ?case
  proof (cases "i < length data")
    case False
    with "1.prems" show ?thesis by (subst (asm) copy_rows.simps) simp
  next
    case True
    with "1.prems" obtain out1 where s: "copy_row data out i 0 = Inr out1"
      "int i \<noteq> 2147483647" "copy_rows data out1 (i + 1) = Inr out'"
      by (subst (asm) copy_rows.simps) (auto split: sum.splits if_splits)
    from True s have "length out' = length out1" by (rule "1.IH")
    with copy_row_length [OF s(1)] show ?thesis by simp
  qed
qed

lemma copy_row_result:
  assumes "data \<noteq> []" "i < length data" "length (data ! i) = length (data ! 0)"
    and "length (data ! 0) < 2 ^ 31"
    and "i < length out" "length (out ! i) = length (data ! 0)"
    and "j \<le> length (data ! 0)"
  shows "copy_row data out i j = Inr (out[i := take j (out ! i) @ drop j (data ! i)])"
  using assms(5-7)
proof (induction "length (data ! 0) - j" arbitrary: j out)
  case 0
  then have "j = length (data ! 0)" by simp
  with 0 assms(1,3) show ?case
    by (subst copy_row.simps) (simp add: elem_def)
next
  case (Suc m)
  then have j: "j < length (data ! 0)" by simp
  with assms(4) have no_overflow: "int j \<noteq> 2147483647" by simp
  define x where "x = data ! i ! j"
  define out' where "out' = out[i := (out ! i)[j := x]]"
  have asg: "assign out i j x = Inr out'"
    using Suc.prems j by (simp add: assign_def out'_def)
  have step: "copy_row data out i j = copy_row data out' i (j + 1)"
    using assms(1-3) j asg no_overflow by (subst copy_row.simps) (simp add: elem_def x_def)
  have row: "out' ! i = (out ! i)[j := x]"
    using Suc.prems(1) by (simp add: out'_def)
  have "copy_row data out' i (j + 1) =
      Inr (out'[i := take (j + 1) (out' ! i) @ drop (j + 1) (data ! i)])"
    using Suc.hyps(2) Suc.prems j
    by (intro Suc.hyps(1)) (simp_all add: out'_def)
  also have "take (j + 1) (out' ! i) = take j (out ! i) @ [x]"
    using Suc.prems(2) j by (simp add: row take_Suc_conv_app_nth)
  also have "(take j (out ! i) @ [x]) @ drop (j + 1) (data ! i) =
      take j (out ! i) @ drop j (data ! i)"
    using assms(3) j by (simp add: x_def Cons_nth_drop_Suc)
  also have "out'[i := take j (out ! i) @ drop j (data ! i)] =
      out[i := take j (out ! i) @ drop j (data ! i)]"
    by (simp add: out'_def)
  finally show ?case unfolding step .
qed

lemma copy_row_outside:
  assumes "data \<noteq> []" "i < length data" "0 < length (data ! i)" "0 < length (data ! 0)"
    and "length out \<le> i"
  shows "copy_row data out i 0 = Inl OutOfBounds"
  using assms by (subst copy_row.simps) (simp add: elem_def assign_def)

lemma copy_rows_result:
  assumes "data \<noteq> []" "\<forall>row\<in>set data. length row = length (data ! 0)"
    and "0 < length (data ! 0)" "length (data ! 0) < 2 ^ 31"
    and "length out \<le> length data" "length out < 2 ^ 31"
    and "\<forall>row\<in>set out. length row = length (data ! 0)"
    and "i \<le> length out"
  shows "copy_rows data out i =
     (if length out < length data then Inl OutOfBounds else Inr (take i out @ drop i data))"
  using assms(5-8)
proof (induction "length out - i" arbitrary: i out)
  case 0
  then have i: "i = length out" by simp
  show ?case
  proof (cases "length out < length data")
    case True
    with i assms(2) have r: "length (data ! i) = length (data ! 0)" by simp
    have "copy_row data out i 0 = Inl OutOfBounds"
      using assms(1) True assms(3) i r by (intro copy_row_outside) simp_all
    with True i show ?thesis by (subst copy_rows.simps) simp
  next
    case False
    with "0.prems"(1) i have "i = length data" by simp
    with i show ?thesis by (subst copy_rows.simps) simp
  qed
next
  case (Suc m)
  then have io: "i < length out" by simp
  with Suc.prems(1) have i: "i < length data" by simp
  from io Suc.prems(2) have no_overflow: "int i \<noteq> 2147483647" by simp
  define out' where "out' = out[i := data ! i]"
  from assms(2) i have r: "length (data ! i) = length (data ! 0)" by simp
  from Suc.prems(3) io have o: "length (out ! i) = length (data ! 0)" by simp
  have "copy_row data out i 0 =
      Inr (out[i := take 0 (out ! i) @ drop 0 (data ! i)])"
    by (rule copy_row_result [OF assms(1) i r assms(4) io o]) simp
  then have row: "copy_row data out i 0 = Inr out'"
    by (simp add: out'_def)
  have step: "copy_rows data out i = copy_rows data out' (i + 1)"
    using i row no_overflow by (subst copy_rows.simps) simp
  have "set out' \<subseteq> insert (data ! i) (set out)"
    unfolding out'_def by (rule set_update_subset_insert)
  with Suc.prems(3) r have rows: "\<forall>row\<in>set out'. length row = length (data ! 0)"
    by blast
  have len: "length out' = length out" by (simp add: out'_def)
  from Suc.hyps(2) io have m: "m = length out' - (i + 1)" by (simp add: len)
  from Suc.prems(1,2) have len': "length out' \<le> length data" "length out' < 2 ^ 31"
    by (simp_all add: len)
  from io have i': "i + 1 \<le> length out'" by (simp add: len)
  have "copy_rows data out' (i + 1) =
      (if length out' < length data then Inl OutOfBounds
       else Inr (take (i + 1) out' @ drop (i + 1) data))"
    using m len' rows i' by (rule Suc.hyps(1))
  also have "take (i + 1) out' = take i out @ [data ! i]"
    using io by (simp add: out'_def take_Suc_conv_app_nth)
  also have "(take i out @ [data ! i]) @ drop (i + 1) data = take i out @ drop i data"
    using i by (simp add: Cons_nth_drop_Suc)
  finally show ?case unfolding step len .
qed

subsection \<open>The result of \<open>permutations\<close>\<close>

lemma NumericMatrix_good:
  assumes "0 \<le> r" "0 \<le> c"
  shows "\<exists>out. NumericMatrix enough_memory r c = Inr out \<and> length out = nat r \<and>
     (\<forall>row\<in>set out. length row = nat c)"
  using assms by (simp add: NumericMatrix_def enough_memory_def)

lemma NumericMatrix_length:
  "NumericMatrix mem r c = Inr out \<Longrightarrow> length out = nat r"
  by (auto simp: NumericMatrix_def split: if_splits)

lemma permutations_rows_below_int_max:
  assumes "permutations intr mem n = Inr grid"
  shows "length grid < 2 ^ 31"
proof -
  from assms obtain v data checks where
    fl: "for_loop intr mem 1 n [] [] 0 = Inr (v, data, checks)"
    by (cases "for_loop intr mem 1 n [] [] 0") (auto simp: permutations_def)
  with assms obtain row0 where e: "elem data 0 = Inr row0"
    by (cases "elem data 0") (auto simp: permutations_def)
  with assms fl obtain out where
    m: "NumericMatrix mem (to_int (length data)) (to_int (length row0)) = Inr out"
    by (cases "NumericMatrix mem (to_int (length data)) (to_int (length row0))")
      (auto simp: permutations_def)
  with assms fl e have c: "copy_rows data out 0 = Inr grid"
    by (simp add: permutations_def)
  from c have "length grid = length out" by (rule copy_rows_length)
  also from m have "\<dots> = nat (to_int (length data))" by (rule NumericMatrix_length)
  also have "\<dots> < 2 ^ 31" using to_int_less [of "length data"] by simp
  finally show ?thesis .
qed

lemma successors_upto_rows:
  "\<forall>row\<in>set (successors [1..n]). length row = length (successors [1..n] ! 0)"
  by (simp add: successors_same_length nth_successors_0)

lemma permutations_unfold:
  assumes "1 \<le> n"
  shows "permutations no_interrupt enough_memory n =
     (case NumericMatrix enough_memory (to_int (fact (nat n))) (to_int (nat n)) of
        Inl e \<Rightarrow> Inl e
      | Inr out \<Rightarrow> copy_rows (successors [1..n]) out 0)"
  using assms
  by (simp add: permutations_def for_loop_from_start elem_def successors_nonempty
      nth_successors_0 successors_upto_length)


lemma copy_successors:
  assumes "1 \<le> n" "n < 2 ^ 31" "length out = nat r" "r \<le> fact (nat n)" "0 \<le> r" "r < 2 ^ 31"
    and "\<forall>row\<in>set out. length row = nat n"
  shows "copy_rows (successors [1..n]) out 0 =
     (if r < fact (nat n) then Inl OutOfBounds else Inr (successors [1..n]))"
proof -
  let ?data = "successors [1..n]"
  have len0: "length (?data ! 0) = nat n" using assms(1) by (simp add: nth_successors_0)
  have "copy_rows ?data out 0 =
     (if length out < length ?data then Inl OutOfBounds else Inr (take 0 out @ drop 0 ?data))"
  proof (rule copy_rows_result)
    show "?data \<noteq> []" by (rule successors_nonempty)
    show "\<forall>row\<in>set ?data. length row = length (?data ! 0)" by (rule successors_upto_rows)
    show "0 < length (?data ! 0)" using assms(1) by (simp add: len0)
    show "length (?data ! 0) < 2 ^ 31" using assms(1,2) by (simp add: len0)
    show "length out \<le> length ?data"
      using assms(3-5) by (simp add: successors_upto_length nat_le_iff)
    show "length out < 2 ^ 31" using assms(3,5,6) by simp
    show "\<forall>row\<in>set out. length row = length (?data ! 0)" using assms(7) by (simp add: len0)
    show "0 \<le> length out" by simp
  qed
  moreover have "length out < length ?data \<longleftrightarrow> r < fact (nat n)"
    using assms(3,5) by (simp add: successors_upto_length nat_less_iff)
  ultimately show ?thesis by simp
qed

lemma permutations_good:
  assumes "1 \<le> n" "n \<le> 12"
  shows "permutations no_interrupt enough_memory n = Inr (successors [1..n])"
proof -
  have f: "fact (nat n) < (2 :: nat) ^ 31" using assms(2) by (rule rows_within_int_range)
  then have "int (fact (nat n)) < int (2 ^ 31)" by (simp only: of_nat_less_iff)
  then have fi: "(fact (nat n) :: int) < 2 ^ 31" by simp
  from f have "to_int (fact (nat n)) = int (fact (nat n))" by (rule to_int_small)
  then have r: "to_int (fact (nat n)) = fact (nat n)" by simp
  have c: "to_int (nat n) = n" using assms by (simp add: to_int_small)
  obtain out where out: "NumericMatrix enough_memory (fact (nat n)) n = Inr out"
    "length out = nat (fact (nat n))" "\<forall>row\<in>set out. length row = nat n"
    using NumericMatrix_good [of "fact (nat n)" n] assms(1) by auto
  have "copy_rows (successors [1..n]) out 0 =
     (if (fact (nat n) :: int) < fact (nat n) then Inl OutOfBounds
      else Inr (successors [1..n]))"
  proof (rule copy_successors)
    show "1 \<le> n" by (rule assms(1))
    show "n < 2 ^ 31" using assms(2) by simp
    show "length out = nat (fact (nat n))" by (rule out(2))
    show "(fact (nat n) :: int) \<le> fact (nat n)" by simp
    show "(0 :: int) \<le> fact (nat n)" by simp
    show "(fact (nat n) :: int) < 2 ^ 31" by (rule fi)
    show "\<forall>row\<in>set out. length row = nat n" by (rule out(3))
  qed
  then have "copy_rows (successors [1..n]) out 0 = Inr (successors [1..n])" by simp
  then show ?thesis using assms(1) by (simp add: permutations_unfold r c out(1))
qed

lemma permutations_13:
  "permutations no_interrupt enough_memory 13 = Inl OutOfBounds"
proof -
  have f: "fact (nat 13) = (6227020800 :: nat)" by (simp add: fact_numeral)
  have fi: "(fact (nat 13) :: int) = 6227020800" "(fact 13 :: int) = 6227020800"
    by (simp_all add: fact_numeral)
  have "to_int (6227020800 :: nat) = 1932053504" by (simp add: to_int_def)
  with f have r: "to_int (fact (nat 13)) = 1932053504" by (simp only:)
  have c: "to_int (nat 13) = 13" by (simp add: to_int_def)
  obtain out where out: "NumericMatrix enough_memory 1932053504 13 = Inr out"
    "length out = nat 1932053504" "\<forall>row\<in>set out. length row = nat 13"
    using NumericMatrix_good [of 1932053504 13] by auto
  have "copy_rows (successors [1..13]) out 0 =
     (if (1932053504 :: int) < fact (nat 13) then Inl OutOfBounds
      else Inr (successors [1..13]))"
  proof (rule copy_successors)
    show "(1 :: int) \<le> 13" by simp
    show "(13 :: int) < 2 ^ 31" by simp
    show "length out = nat 1932053504" by (rule out(2))
    show "(1932053504 :: int) \<le> fact (nat 13)" by (simp add: fi)
    show "(0 :: int) \<le> 1932053504" by simp
    show "(1932053504 :: int) < 2 ^ 31" by simp
    show "\<forall>row\<in>set out. length row = nat 13" by (rule out(3))
  qed
  then have copy: "copy_rows (successors [1..13]) out 0 = Inl OutOfBounds"
    by (simp add: fi)
  have "permutations no_interrupt enough_memory 13 =
     (case NumericMatrix enough_memory (to_int (fact (nat 13))) (to_int (nat 13)) of
        Inl e \<Rightarrow> Inl e
      | Inr out \<Rightarrow> copy_rows (successors [1..13]) out 0)"
    by (rule permutations_unfold) simp
  then show ?thesis unfolding r c out(1) using copy by simp
qed


text \<open>
  Interrupts and failed allocations only end a run early: a run that returns a result
  returns the result of the run without interrupt in which every allocation succeeds.
\<close>

lemma do_while_any_run:
  "do_while intr mem i n v data checks = Inr r \<Longrightarrow>
   do_while no_interrupt enough_memory i n v data checks = Inr r"
proof (induction v arbitrary: data checks rule: successors_induct)
  case (more v v')
  from more.prems
  have "do_while intr mem i n v' (if i = n then data @ [v] else data) (Suc checks) = Inr r"
    by (subst (asm) do_while.simps) (simp add: more(1) Let_def split: if_splits)
  then have "do_while no_interrupt enough_memory i n v' (if i = n then data @ [v] else data)
      (Suc checks) = Inr r"
    by (rule more.IH)
  then show ?case
    by (subst do_while.simps) (simp add: more(1) Let_def no_interrupt_def enough_memory_def)
next
  case (last v v')
  from last.prems have "r = (v', (if i = n then data @ [v] else data), Suc checks)"
    by (subst (asm) do_while.simps) (simp add: last(1) Let_def split: if_splits)
  then show ?case
    by (subst do_while.simps) (simp add: last(1) Let_def no_interrupt_def enough_memory_def)
qed

lemma for_loop_any_run:
  "for_loop intr mem i n v data checks = Inr r \<Longrightarrow>
   for_loop no_interrupt enough_memory i n v data checks = Inr r"
proof (induction "nat (n + 1 - i)" arbitrary: i v data checks)
  case 0
  then have "\<not> i \<le> n" by simp
  with "0.prems" show ?case
    by (subst for_loop.simps, subst (asm) for_loop.simps) simp
next
  case (Suc m)
  then have i: "i \<le> n" by simp
  from Suc.prems i obtain v' data' checks' where
    s: "do_while intr mem i n (v @ [i]) data checks = Inr (v', data', checks')"
      "for_loop intr mem (i + 1) n v' data' checks' = Inr r"
    by (subst (asm) for_loop.simps) (auto split: if_splits sum.splits)
  from s(1) have "do_while no_interrupt enough_memory i n (v @ [i]) data checks =
      Inr (v', data', checks')"
    by (rule do_while_any_run)
  moreover from Suc(2) i have "m = nat (n + 1 - (i + 1))" by simp
  then have "for_loop no_interrupt enough_memory (i + 1) n v' data' checks' = Inr r"
    using s(2) by (rule Suc(1))
  ultimately show ?case
    using i by (subst for_loop.simps) (simp add: enough_memory_def)
qed

text \<open>
  From \<open>n = 13\<close> on no run returns a grid: the matrix has fewer rows than \<open>data\<close>, or its
  narrowed number of rows is negative.
\<close>

lemma permutations_no_grid:
  assumes "13 \<le> n" "n < 2 ^ 31"
  shows "permutations intr mem n \<noteq> Inr grid"
proof
  assume p: "permutations intr mem n = Inr grid"
  let ?data = "successors [1..n]"
  from assms have n: "1 \<le> n" by simp
  from p obtain v data checks where
    fl: "for_loop intr mem 1 n [] [] 0 = Inr (v, data, checks)"
    by (cases "for_loop intr mem 1 n [] [] 0") (auto simp: permutations_def)
  from fl have "for_loop no_interrupt enough_memory 1 n [] [] 0 = Inr (v, data, checks)"
    by (rule for_loop_any_run)
  with n have data: "data = ?data" by (auto simp: for_loop_from_start)
  have e: "elem ?data 0 = Inr [1..n]"
    by (simp add: elem_def successors_nonempty nth_successors_0)
  define r where "r = to_int (fact (nat n))"
  have c: "to_int (nat n) = n" using assms n by (simp add: to_int_small)
  have len: "to_int (length ?data) = r" "to_int (length [1..n]) = n"
    using n c by (simp_all add: r_def successors_upto_length)
  from p fl data e len obtain out where
    m: "NumericMatrix mem r n = Inr out"
    by (cases "NumericMatrix mem r n") (auto simp: permutations_def)
  with p fl data e len have copy: "copy_rows ?data out 0 = Inr grid"
    by (simp add: permutations_def)
  from m have r0: "0 \<le> r" and out: "out = replicate (nat r) (replicate (nat n) 0)"
    by (auto simp: NumericMatrix_def split: if_splits)
  have r31: "r < 2 ^ 31" unfolding r_def by (rule to_int_less)
  have "(2 :: nat) ^ 31 \<le> fact (nat n)" using assms(1) by (rule rows_within_int_range)
  then have "int (2 ^ 31) \<le> int (fact (nat n))" by (simp only: of_nat_le_iff)
  then have big: "(2 :: int) ^ 31 \<le> fact (nat n)" by simp
  have "copy_rows ?data out 0 =
     (if r < fact (nat n) then Inl OutOfBounds else Inr ?data)"
  proof (rule copy_successors)
    show "1 \<le> n" by (rule n)
    show "n < 2 ^ 31" by (rule assms(2))
    show "length out = nat r" by (simp add: out)
    show "r \<le> fact (nat n)" using r31 big by simp
    show "0 \<le> r" by (rule r0)
    show "r < 2 ^ 31" by (rule r31)
    show "\<forall>row\<in>set out. length row = nat n" by (simp add: out)
  qed
  with r31 big have "copy_rows ?data out 0 = Inl OutOfBounds" by simp
  with copy show False by simp
qed

text \<open>
  Runs of \<open>permutations 3\<close> that end in a failure: an interrupt pending at the last of the
  nine checks, a \<^verbatim>\<open>push_back\<close> on \<open>data\<close> or on \<open>v\<close> that cannot allocate, and a matrix that
  cannot be allocated. None returns a grid.
\<close>

lemma permutations_failures_examples:
  "permutations (\<lambda>k. k = 8) enough_memory 3 = Inl Interrupted"
  "permutations no_interrupt (\<lambda>a. a \<noteq> PushData 4) 3 = Inl BadAlloc"
  "permutations no_interrupt (\<lambda>a. a \<noteq> PushV 1) 3 = Inl BadAlloc"
  "permutations no_interrupt (\<lambda>a. a \<noteq> Matrix 6 3) 3 = Inl HostError"
  by code_simp+

subsection \<open>The comparison of floats\<close>

lemma float_fields_examples:
  "exponent 0x40400000 = 128" "fraction 0x40400000 = 4194304"
  "exponent 0x3FC00000 = 127" "fraction 0x3FC00000 = 4194304"
  "exponent 0xC0800000 = 129" "fraction 0xC0800000 = 0"
  "exponent 0x3F800000 = 127" "fraction 0x3F800000 = 0"
  "exponent 0x41133333 = 130" "fraction 0x41133333 = 1258291"
  "exponent 0x7FC00000 = 255" "fraction 0x7FC00000 = 4194304"
  by (simp_all add: exponent_def fraction_def)

lemma float_val_examples:
  "float_val 0x40400000 = 3" "float_val 0x3FC00000 = 3 / 2"
  "float_val 0xC0800000 = - 4" "float_val 0x3F800000 = 1"
  "float_val 0x41133333 = 9646899 / 1048576"
  by (simp_all add: float_val_def float_fields_examples)

lemma float_val_9_2:
  "\<bar>46 / 5 - float_val 0x41133333\<bar> < 1 / 2 ^ 21"
  by (simp add: float_val_examples)

lemma float_scaled_mono:
  assumes "f < 2 ^ 23" "f' < 2 ^ 23" "2 ^ 23 * e + f < 2 ^ 23 * e' + f'"
  shows "float_scaled e f < float_scaled e' f'"
proof -
  have "e < e' \<or> e = e' \<and> f < f'"
  proof (cases e e' rule: linorder_cases)
    case less
    then show ?thesis by simp
  next
    case equal
    with assms(3) show ?thesis by simp
  next
    case greater
    then have "Suc e' \<le> e" by simp
    then have "2 ^ 23 * Suc e' \<le> (2 ^ 23 * e :: nat)" by (rule mult_le_mono2)
    with assms(2,3) show ?thesis by simp
  qed
  then show ?thesis
  proof
    assume "e = e' \<and> f < f'"
    then show ?thesis by (simp add: float_scaled_def)
  next
    assume e: "e < e'"
    then have "Suc e \<le> e'" by simp
    then have p: "(2::nat) ^ Suc e \<le> 2 ^ e'" by (rule power_increasing) simp
    have "float_scaled e f < 2 ^ 23 * 2 ^ Suc e"
      using assms(1) by (simp add: float_scaled_def)
    also have "\<dots> \<le> 2 ^ 23 * 2 ^ e'" using p by simp
    also have "\<dots> \<le> float_scaled e' f'" using e by (simp add: float_scaled_def)
    finally show ?thesis .
  qed
qed

lemma fraction_less: "fraction x < 2 ^ 23"
  unfolding fraction_def unsigned_take_bit_eq by (simp add: take_bit_eq_mod)

lemma magnitude_fields:
  "unat (take_bit 31 x) = 2 ^ 23 * exponent x + fraction x"
proof -
  have "unat x mod 2 ^ 31 = 2 ^ 23 * (unat x div 2 ^ 23 mod 2 ^ 8) + unat x mod 2 ^ 23"
    using mod_mult2_eq [of "unat x" "2 ^ 23" "2 ^ 8"] by simp
  then show ?thesis
    unfolding exponent_def fraction_def unsigned_take_bit_eq unat_drop_bit_eq
    by (simp add: take_bit_eq_mod drop_bit_eq_div)
qed

lemma exponent_less: "exponent x < 2 ^ 8"
  unfolding exponent_def unsigned_take_bit_eq by (simp add: take_bit_eq_mod)

lemma isnan_iff: "isnan x \<longleftrightarrow> exponent x = 255 \<and> fraction x \<noteq> 0"
proof -
  have "isnan x \<longleftrightarrow> unat (0x7F800000 :: float) < unat (take_bit 31 x)"
    by (simp add: isnan_def word_less_nat_alt)
  also have "\<dots> \<longleftrightarrow> 255 * 2 ^ 23 < 2 ^ 23 * exponent x + fraction x"
    by (simp only: magnitude_fields) simp
  also have "\<dots> \<longleftrightarrow> exponent x = 255 \<and> fraction x \<noteq> 0"
    using exponent_less [of x] fraction_less [of x] by auto
  finally show ?thesis .
qed

lemma float_val_scaled:
  "float_val x =
     (if bit x 31 then - (of_nat (float_scaled (exponent x) (fraction x)) / 2 ^ 150)
      else of_nat (float_scaled (exponent x) (fraction x)) / 2 ^ 150)"
  by (simp add: float_val_def float_scaled_def Let_def)

lemma float_scaled_less_iff:
  assumes "f < 2 ^ 23" "f' < 2 ^ 23"
  shows "float_scaled e f < float_scaled e' f' \<longleftrightarrow> 2 ^ 23 * e + f < 2 ^ 23 * e' + f'"
proof
  assume "2 ^ 23 * e + f < 2 ^ 23 * e' + f'"
  with assms show "float_scaled e f < float_scaled e' f'" by (rule float_scaled_mono)
next
  assume l: "float_scaled e f < float_scaled e' f'"
  show "2 ^ 23 * e + f < 2 ^ 23 * e' + f'"
  proof (rule ccontr)
    assume "\<not> 2 ^ 23 * e + f < 2 ^ 23 * e' + f'"
    then consider "2 ^ 23 * e' + f' < 2 ^ 23 * e + f" | "2 ^ 23 * e' + f' = 2 ^ 23 * e + f"
      by linarith
    then show False
    proof cases
      case 1
      with assms have "float_scaled e' f' < float_scaled e f" by (intro float_scaled_mono)
      with l show False by simp
    next
      case 2
      then have "(2 ^ 23 * e' + f') div 2 ^ 23 = (2 ^ 23 * e + f) div 2 ^ 23"
        "(2 ^ 23 * e' + f') mod 2 ^ 23 = (2 ^ 23 * e + f) mod 2 ^ 23" by simp_all
      with assms have "e' = e" "f' = f" by simp_all
      with l show False by simp
    qed
  qed
qed

lemma float_scaled_zero_iff: "float_scaled e f = 0 \<longleftrightarrow> 2 ^ 23 * e + f = 0"
  by (simp add: float_scaled_def)

lemma float_key_order: "float_key a < float_key b \<longleftrightarrow> float_val a < float_val b"
proof -
  define Ka where "Ka = 2 ^ 23 * exponent a + fraction a"
  define Kb where "Kb = 2 ^ 23 * exponent b + fraction b"
  define Ga where "Ga = float_scaled (exponent a) (fraction a)"
  define Gb where "Gb = float_scaled (exponent b) (fraction b)"
  have lt: "Ga < Gb \<longleftrightarrow> Ka < Kb" "Gb < Ga \<longleftrightarrow> Kb < Ka"
    unfolding Ga_def Gb_def Ka_def Kb_def
    by (rule float_scaled_less_iff [OF fraction_less fraction_less])+
  have z: "Ga = 0 \<longleftrightarrow> Ka = 0" "Gb = 0 \<longleftrightarrow> Kb = 0"
    unfolding Ga_def Gb_def Ka_def Kb_def by (simp_all only: float_scaled_zero_iff)
  have "uint (take_bit 31 a) = int Ka" "uint (take_bit 31 b) = int Kb"
    unfolding Ka_def Kb_def by (simp_all only: magnitude_fields [symmetric] of_nat_unat)
  then have key: "float_key a = (if bit a 31 then - int Ka else int Ka)"
    "float_key b = (if bit b 31 then - int Kb else int Kb)"
    by (simp_all add: float_key_def)
  define c :: rat where "c = 2 ^ 150"
  have c: "0 < c" by (simp add: c_def)
  have val: "float_val a = (if bit a 31 then - (of_nat Ga / c) else of_nat Ga / c)"
    "float_val b = (if bit b 31 then - (of_nat Gb / c) else of_nat Gb / c)"
    by (simp_all only: float_val_scaled Ga_def Gb_def c_def)
  have pos: "of_nat Ga / c < of_nat Gb / c \<longleftrightarrow> Ga < Gb"
    "- (of_nat Ga / c) < - (of_nat Gb / c) \<longleftrightarrow> Gb < Ga"
    using c by (simp_all add: divide_less_cancel)
  have neg: "- (of_nat Ga / c) < of_nat Gb / c \<longleftrightarrow> \<not> (Ga = 0 \<and> Gb = 0)"
  proof -
    have "- (of_nat Ga / c) < of_nat Gb / c \<longleftrightarrow> (- of_nat Ga) / c < of_nat Gb / c"
      by simp
    also have "\<dots> \<longleftrightarrow> - (of_nat Ga :: rat) < of_nat Gb"
      using c by (simp only: divide_less_cancel) auto
    also have "\<dots> \<longleftrightarrow> (0 :: rat) < of_nat (Ga + Gb)" by auto
    also have "\<dots> \<longleftrightarrow> 0 < Ga + Gb" by (simp only: of_nat_0_less_iff)
    finally show ?thesis by auto
  qed
  have nonneg: "\<not> of_nat Ga / c < - (of_nat Gb / c)"
  proof -
    have "- (of_nat Gb / c) \<le> 0" "0 \<le> of_nat Ga / c" using c by simp_all
    then show ?thesis by linarith
  qed
  show ?thesis
    unfolding key val using lt z pos neg nonneg by auto
qed

lemma float_less_iff:
  "float_less a b \<longleftrightarrow> \<not> isnan a \<and> \<not> isnan b \<and> float_val a < float_val b"
  by (simp add: float_less_def float_key_order)

lemma float_le_iff:
  "float_le a b \<longleftrightarrow> \<not> isnan a \<and> \<not> isnan b \<and> float_val a \<le> float_val b"
proof -
  have "float_key a \<le> float_key b \<longleftrightarrow> \<not> float_key b < float_key a" by auto
  also have "\<dots> \<longleftrightarrow> \<not> float_val b < float_val a" by (simp only: float_key_order)
  also have "\<dots> \<longleftrightarrow> float_val a \<le> float_val b" by auto
  finally show ?thesis by (simp add: float_le_def)
qed

subsection \<open>The result of \<open>maxC\<close>\<close>

lemma max_loop_less: "largest < length v \<Longrightarrow> max_loop v largest first < length v"
proof (induction v largest first rule: max_loop.induct)
  case (1 v largest first)
  show ?case
  proof (cases "first < length v")
    case True
    with 1 show ?thesis by (subst max_loop.simps) simp
  next
    case False
    with 1 show ?thesis by (subst max_loop.simps) simp
  qed
qed

lemma maxC_nonempty: "v \<noteq> [] \<Longrightarrow> \<exists>x. maxC v = Inr x \<and> x \<in> set v"
  using max_loop_less [of 0 v 1]
  by (simp add: maxC_def max_element_def elem_def)

lemma float_less_no_nan:
  "\<not> isnan a \<Longrightarrow> \<not> isnan b \<Longrightarrow> float_less a b \<longleftrightarrow> float_key a < float_key b"
  by (simp add: float_less_def)

lemma max_loop_greatest:
  "\<forall>x\<in>set v. \<not> isnan x \<Longrightarrow> largest < first \<Longrightarrow> first \<le> length v \<Longrightarrow>
    \<forall>k<first. float_key (v ! k) \<le> float_key (v ! largest) \<Longrightarrow>
    \<forall>k<length v. float_key (v ! k) \<le> float_key (v ! max_loop v largest first)"
proof (induction v largest first rule: max_loop.induct)
  case (1 v largest first)
  note nan = \<open>\<forall>x\<in>set v. \<not> isnan x\<close>
  note lt = \<open>largest < first\<close>
  note le = \<open>first \<le> length v\<close>
  note inv = \<open>\<forall>k<first. float_key (v ! k) \<le> float_key (v ! largest)\<close>
  show ?case
  proof (cases "first < length v")
    case False
    with le inv show ?thesis by (subst max_loop.simps) simp
  next
    case True
    define l' where "l' = (if float_less (v ! largest) (v ! first) then first else largest)"
    from True lt have "v ! largest \<in> set v" "v ! first \<in> set v" by simp_all
    with nan have nn: "\<not> isnan (v ! largest)" "\<not> isnan (v ! first)"
      by blast+
    have l': "l' < first + 1" using lt by (simp add: l'_def)
    have bound: "\<forall>k<first + 1. float_key (v ! k) \<le> float_key (v ! l')"
    proof (intro allI impI)
      fix k assume "k < first + 1"
      then consider "k < first" | "k = first" by linarith
      then show "float_key (v ! k) \<le> float_key (v ! l')"
      proof cases
        case 1
        with inv have "float_key (v ! k) \<le> float_key (v ! largest)" by simp
        then show ?thesis using nn by (auto simp: l'_def float_less_no_nan)
      next
        case 2
        then show ?thesis using nn by (auto simp: l'_def float_less_no_nan)
      qed
    qed
    from True have le': "first + 1 \<le> length v" by simp
    have "\<forall>k<length v. float_key (v ! k) \<le> float_key (v ! max_loop v l' (first + 1))"
      using True nan l' le' bound by (rule "1.IH" [folded l'_def])
    then show ?thesis using True by (subst max_loop.simps) (simp add: l'_def)
  qed
qed

lemma maxC_greatest:
  assumes "v \<noteq> []" "\<forall>x\<in>set v. \<not> isnan x"
  shows "\<exists>m. maxC v = Inr m \<and> m \<in> set v \<and> (\<forall>x\<in>set v. float_le x m)"
proof -
  from assms(1) obtain m where m: "maxC v = Inr m" "m \<in> set v"
    using maxC_nonempty by blast
  from assms(1) have k: "max_element v < length v" "m = v ! max_element v"
    using m(1) by (auto simp: maxC_def elem_def split: if_splits)
  from assms(1) have "\<forall>k<length v. float_key (v ! k) \<le> float_key (v ! max_loop v 0 1)"
    by (intro max_loop_greatest [OF assms(2)]) (auto simp: Suc_le_eq)
  with assms(1) k have "\<forall>k<length v. float_key (v ! k) \<le> float_key m"
    by (simp add: max_element_def)
  then have "\<forall>x\<in>set v. float_key x \<le> float_key m"
    by (auto simp: in_set_conv_nth)
  with assms(2) m show ?thesis by (auto simp: float_le_def)
qed

section \<open>The claims\<close>

text \<open>
  Claim C1: for every \<open>n \<ge> 1\<close>, \<open>permutations n\<close> returns a grid with exactly \<open>n!\<close> rows and
  \<open>n\<close> columns; every row is a permutation of \<open>{1, \<dots>, n}\<close>, no two rows are equal, and
  every permutation of \<open>{1, \<dots>, n}\<close> is a row. The grid is an \<^verbatim>\<open>Rcpp::NumericMatrix\<close>, whose
  numbers of rows and columns are \<^verbatim>\<open>int\<close>s: whatever the environment, no call returns a grid
  of \<open>2\<^sup>3\<^sup>1\<close> rows or more, and \<open>13!\<close> is more than that.
\<close>

theorem no_grid_of_13_factorial_rows:
  "\<not> (\<exists>intr mem grid. permutations intr mem 13 = Inr grid \<and> length grid = fact 13)"
proof
  assume "\<exists>intr mem grid. permutations intr mem 13 = Inr grid \<and> length grid = fact 13"
  then obtain intr mem grid where g: "permutations intr mem 13 = Inr grid"
    "length grid = fact 13"
    by blast
  from g(1) have "length grid < 2 ^ 31" by (rule permutations_rows_below_int_max)
  moreover have "fact 13 = (6227020800 :: nat)" by (simp add: fact_numeral)
  ultimately show False using g(2) by simp
qed

text \<open>
  What holds of the code (claim C1 as amended): for every \<open>n\<close> from 1 to 12, in a run
  without interrupt in which every allocation succeeds, \<open>permutations n\<close> returns a grid
  with exactly \<open>n!\<close> rows and \<open>n\<close> columns; every row is a permutation of \<open>{1, \<dots>, n}\<close>, no
  two rows are equal, and every permutation of \<open>{1, \<dots>, n}\<close> is a row.
\<close>

theorem permutations_all_rows:
  "1 \<le> n \<Longrightarrow> n \<le> 12 \<Longrightarrow>
   \<exists>grid. permutations no_interrupt enough_memory n = Inr grid \<and>
     length grid = fact (nat n) \<and>
     (\<forall>row\<in>set grid. length row = nat n \<and> distinct row \<and> set row = {1..n}) \<and>
     distinct grid \<and>
     (\<forall>p. distinct p \<and> set p = {1..n} \<longrightarrow> p \<in> set grid)"
proof -
  assume n: "1 \<le> n" "n \<le> 12"
  have "permutations no_interrupt enough_memory n = Inr (successors [1..n])"
    using n by (rule permutations_good)
  moreover have "length (successors [1..n]) = fact (nat n)"
    by (rule successors_upto_length)
  moreover have "\<forall>row\<in>set (successors [1..n]).
      length row = nat n \<and> distinct row \<and> set row = {1..n}"
  proof
    fix row assume row: "row \<in> set (successors [1..n])"
    then have "length row = length [1..n]" by (rule successors_same_length)
    with n have "length row = nat n" by simp
    moreover from row have "distinct row \<and> set row = {1..n}"
      by (simp add: successors_upto_set)
    ultimately show "length row = nat n \<and> distinct row \<and> set row = {1..n}" by simp
  qed
  moreover have "distinct (successors [1..n])"
    by (rule successors_upto_distinct)
  moreover have "\<forall>p. distinct p \<and> set p = {1..n} \<longrightarrow> p \<in> set (successors [1..n])"
    by (simp add: successors_upto_set)
  ultimately show ?thesis by blast
qed

theorem permutations_all_rows_witness:
  "(1::int) \<le> 3 \<and> (3::int) \<le> 12 \<and>
   (\<exists>grid. permutations no_interrupt enough_memory 3 = Inr grid \<and> length grid = 6 \<and>
      distinct grid \<and> [3, 1, 2] \<in> set grid)"
proof -
  from permutations_all_rows [of 3] obtain grid where g:
    "permutations no_interrupt enough_memory 3 = Inr grid" "length grid = fact (nat 3)"
    "distinct grid" "\<forall>p. distinct p \<and> set p = {1..3} \<longrightarrow> p \<in> set grid"
    by auto
  have "distinct [3, 1, 2 :: int] \<and> set [3, 1, 2 :: int] = {1..3}" by auto
  with g(4) have "[3, 1, 2] \<in> set grid" by blast
  moreover have "fact (nat 3) = (6 :: nat)" by (simp add: eval_nat_numeral)
  ultimately show ?thesis using g by auto
qed

text \<open>
  Claim C2: for every \<open>n \<ge> 1\<close> the rows of \<open>permutations n\<close> are in strictly ascending
  lexicographic order, row 0 is \<open>[1, \<dots>, n]\<close> and the last row is \<open>[n, \<dots>, 1]\<close>; and
  \<open>permutations 3\<close> is the six rows \<open>[1,2,3], [1,3,2], [2,1,3], [2,3,1], [3,1,2], [3,2,1]\<close> in
  that order. For \<open>n = 13\<close> there are no rows to be in order: the number of rows of the
  matrix is an \<^verbatim>\<open>int\<close>, the \<open>13!\<close> recorded rows do not fit it, and no run, whatever the
  interrupts and the allocations, returns a grid.
\<close>

theorem permutations_13_returns_no_grid:
  "\<not> (\<exists>intr mem grid. permutations intr mem 13 = Inr grid)"
  using permutations_no_grid [of 13] by simp

text \<open>
  What holds of the code (claim C2 as amended): for every \<open>n\<close> from 1 to 12, in a run
  without interrupt in which every allocation succeeds, the rows of \<open>permutations n\<close> are
  in strictly ascending lexicographic order (\<open><\<close> on sequences: see
  \<open>less_iff_first_difference\<close>), row 0 is \<open>[1, \<dots>, n]\<close> and the last row is \<open>[n, \<dots>, 1]\<close>; and
  \<open>permutations 3\<close> is the six rows \<open>[1,2,3], [1,3,2], [2,1,3], [2,3,1], [3,1,2], [3,2,1]\<close> in
  that order.
\<close>

theorem permutations_lexicographic:
  "(1 \<le> n \<and> n \<le> 12 \<longrightarrow>
     (\<exists>grid. permutations no_interrupt enough_memory n = Inr grid \<and> sorted_wrt (<) grid \<and>
        grid ! 0 = [1..n] \<and> last grid = rev [1..n])) \<and>
   permutations no_interrupt enough_memory 3 =
     Inr [[1, 2, 3], [1, 3, 2], [2, 1, 3], [2, 3, 1], [3, 1, 2], [3, 2, 1]]"
proof
  show "1 \<le> n \<and> n \<le> 12 \<longrightarrow>
     (\<exists>grid. permutations no_interrupt enough_memory n = Inr grid \<and> sorted_wrt (<) grid \<and>
        grid ! 0 = [1..n] \<and> last grid = rev [1..n])"
  proof
    assume n: "1 \<le> n \<and> n \<le> 12"
    then have "permutations no_interrupt enough_memory n = Inr (successors [1..n])"
      by (simp add: permutations_good)
    moreover have "sorted_wrt (<) (successors [1..n])"
      by (rule successors_strictly_sorted)
    moreover have "successors [1..n] ! 0 = [1..n]"
      by (rule nth_successors_0)
    moreover have "last (successors [1..n]) = rev [1..n]"
      by (simp add: successors_end sorted_sort_id)
    ultimately show "\<exists>grid. permutations no_interrupt enough_memory n = Inr grid \<and>
        sorted_wrt (<) grid \<and> grid ! 0 = [1..n] \<and> last grid = rev [1..n]" by blast
  qed
  show "permutations no_interrupt enough_memory 3 =
     Inr [[1, 2, 3], [1, 3, 2], [2, 1, 3], [2, 3, 1], [3, 1, 2], [3, 2, 1]]"
    by code_simp
qed

theorem permutations_lexicographic_witness:
  "(1::int) \<le> 2 \<and> (2::int) \<le> 12 \<and>
   (\<exists>grid. permutations no_interrupt enough_memory 2 = Inr grid \<and> sorted_wrt (<) grid \<and>
      grid ! 0 = [1, 2] \<and> last grid = [2, 1])"
proof -
  have "[1..2] = [1, 2 :: int]" by (simp add: upto.simps)
  then show ?thesis using permutations_lexicographic [of 2] by simp
qed

text \<open>
  Claim C3: for every \<open>n \<le> 0\<close>, \<open>permutations n\<close> fails with \<open>InvalidArgument\<close>. The code has
  no such failure: for \<open>n \<le> 0\<close> the loop body never runs, \<open>data\<close> stays empty, and the
  matrix is sized by \<^verbatim>\<open>data[0].size()\<close>, a read of the first element of an empty vector.
  Whatever the environment, \<open>permutations n\<close> ends in that out-of-bounds read.
\<close>

theorem permutations_nonpositive_out_of_bounds:
  "n \<le> 0 \<Longrightarrow> permutations intr mem n = Inl OutOfBounds"
  by (simp add: permutations_def for_loop.simps elem_def)

theorem permutations_nonpositive_out_of_bounds_witness:
  "(0::int) \<le> 0 \<and> permutations no_interrupt enough_memory 0 = Inl OutOfBounds \<and>
   permutations no_interrupt enough_memory (- 1) = Inl OutOfBounds"
  using permutations_nonpositive_out_of_bounds [of 0 no_interrupt enough_memory]
    permutations_nonpositive_out_of_bounds [of "- 1" no_interrupt enough_memory]
  by simp

text \<open>
  Claim C4: \<open>maxC\<close> of an empty sequence fails with \<open>InvalidArgument\<close>. The code has no
  such failure: \<^verbatim>\<open>std::max_element\<close> returns the end of the empty range and \<open>maxC\<close>
  dereferences it, a read outside the vector.
\<close>

theorem maxC_empty_out_of_bounds: "maxC [] = Inl OutOfBounds"
  by (simp add: maxC_def max_element_def elem_def)

text \<open>
  Claim C5: for every input each operation returns a complete result or a tagged failure
  (\<open>InvalidArgument\<close>, \<open>ResourceExhausted\<close>, \<open>Cancelled\<close>), and a cancellation during the
  enumeration aborts \<open>permutations\<close> without a partial grid. For \<open>n = 0\<close> and for the empty
  sequence the code returns no result and raises no failure: it reads outside a vector,
  as in the claims C3 and C4.
\<close>

theorem not_every_input_handled:
  "permutations no_interrupt enough_memory 0 = Inl OutOfBounds \<and> maxC [] = Inl OutOfBounds"
  by (simp add: permutations_def for_loop.simps maxC_def max_element_def elem_def)



text \<open>
  Claim C7: for every non-empty sequence of floats \<open>maxC\<close> returns the greatest element,
  and \<open>maxC [3.0, 1.5, 9.2, -4.0]\<close> is \<open>9.2\<close>. A NaN is a float, and every comparison with
  a NaN is false: a NaN in first place is never replaced, and \<open>maxC [NaN, 1.0]\<close> is the
  NaN, which is not greater than or equal to \<open>1.0\<close>; in the other order the result is
  \<open>1.0\<close>. (\<open>0x7FC00000\<close> is a NaN and \<open>0x3F800000\<close> is \<open>1.0\<close>.)
\<close>

theorem maxC_nan_first:
  "maxC [0x7FC00000, 0x3F800000] = Inr 0x7FC00000 \<and> isnan 0x7FC00000 \<and>
   \<not> float_le 0x3F800000 0x7FC00000 \<and> float_val 0x3F800000 = 1 \<and>
   maxC [0x3F800000, 0x7FC00000] = Inr 0x3F800000"
proof -
  have "maxC [0x7FC00000, 0x3F800000] = Inr 0x7FC00000" by code_simp
  moreover have "maxC [0x3F800000, 0x7FC00000] = Inr 0x3F800000" by code_simp
  moreover have "isnan 0x7FC00000" by code_simp
  moreover have "\<not> float_le 0x3F800000 0x7FC00000" by code_simp
  ultimately show ?thesis by (simp add: float_val_examples)
qed

text \<open>
  What holds of the code (claim C7 as amended): for every non-empty sequence of floats
  none of which is a NaN, \<open>maxC\<close> returns an element of the sequence that every element
  is less than or equal to, as floats and as numbers; and \<open>maxC [3.0, 1.5, 9.2, -4.0]\<close> is
  its third element, the float nearest to \<open>9.2\<close>. (The four floats are \<open>0x40400000\<close>, \<open>0x3FC00000\<close>, \<open>0x41133333\<close> and
  \<open>0xC0800000\<close>: see \<open>float_val_examples\<close>.)
\<close>

theorem maxC_greatest_without_nan:
  "(v \<noteq> [] \<and> (\<forall>x\<in>set v. \<not> isnan x) \<longrightarrow>
      (\<exists>m. maxC v = Inr m \<and> m \<in> set v \<and>
         (\<forall>x\<in>set v. float_le x m \<and> float_val x \<le> float_val m))) \<and>
   maxC [0x40400000, 0x3FC00000, 0x41133333, 0xC0800000] = Inr 0x41133333"
proof
  show "v \<noteq> [] \<and> (\<forall>x\<in>set v. \<not> isnan x) \<longrightarrow>
      (\<exists>m. maxC v = Inr m \<and> m \<in> set v \<and>
         (\<forall>x\<in>set v. float_le x m \<and> float_val x \<le> float_val m))"
    using maxC_greatest [of v] by (auto simp: float_le_iff)
  show "maxC [0x40400000, 0x3FC00000, 0x41133333, 0xC0800000] = Inr 0x41133333"
    by code_simp
qed

theorem maxC_greatest_without_nan_witness:
  "[0x40400000, 0x3FC00000, 0x41133333, 0xC0800000 :: float] \<noteq> [] \<and>
   \<not> isnan 0x40400000 \<and> \<not> isnan 0x3FC00000 \<and> \<not> isnan 0x41133333 \<and> \<not> isnan 0xC0800000 \<and>
   (\<exists>m. maxC [0x40400000, 0x3FC00000, 0x41133333, 0xC0800000] = Inr m \<and>
      float_le 0x40400000 m \<and> float_le 0x3FC00000 m \<and> float_le 0x41133333 m \<and>
      float_le 0xC0800000 m)"
proof -
  have nan: "\<not> isnan 0x40400000" "\<not> isnan 0x3FC00000" "\<not> isnan 0x41133333"
    "\<not> isnan 0xC0800000"
    by code_simp+
  then have "\<forall>x\<in>set [0x40400000, 0x3FC00000, 0x41133333, 0xC0800000]. \<not> isnan x"
    by simp
  with maxC_greatest_without_nan [of "[0x40400000, 0x3FC00000, 0x41133333, 0xC0800000]"]
  obtain m where "maxC [0x40400000, 0x3FC00000, 0x41133333, 0xC0800000] = Inr m"
    "\<forall>x\<in>set [0x40400000, 0x3FC00000, 0x41133333, 0xC0800000]. float_le x m"
    by auto
  with nan show ?thesis by simp
qed

text \<open>
  Claim C8: for every \<open>n \<ge> 1\<close>, without interrupt, every container access of
  \<open>permutations\<close> is in bounds: \<open>data\<close> is not empty when \<^verbatim>\<open>data[0]\<close> is read to size the matrix,
  every \<^verbatim>\<open>data[i]\<close> has exactly \<^verbatim>\<open>data[0].size()\<close> elements, and the copy loops write only
  within the allocated \<open>n!\<close> by \<open>n\<close> matrix. The code sizes the matrix by \<^verbatim>\<open>data.size()\<close>, but
  through an \<^verbatim>\<open>int\<close>: for \<open>n = 13\<close> the \<open>13! = 6227020800\<close> rows of \<open>data\<close> become a matrix of
  \<open>1932053504\<close> rows, and the copy loop, which runs over the rows of \<open>data\<close>, writes the row
  \<open>1932053504\<close>, outside the matrix. (For \<open>n\<close> from 1 to 12 every access is in bounds:
  \<open>permutations_good\<close>.)
\<close>

theorem permutations_13_out_of_bounds:
  "fact 13 = (6227020800 :: nat) \<and> to_int 6227020800 = 1932053504 \<and>
   permutations no_interrupt enough_memory 13 = Inl OutOfBounds"
  by (simp add: permutations_13 fact_numeral to_int_def)



end
